theory Spec2Isabelle
  imports Main "HOL-Library.Word"
begin

section \<open>Data of the session pipeline\<close>

text \<open>
  The two servers, \<^verbatim>\<open>src/server_opus.py\<close> (\<^verbatim>\<open>handle_conn\<close>) and
  \<^verbatim>\<open>src/moshi/moshi/server.py\<close> (\<^verbatim>\<open>handle_chat\<close>), run the same three coroutines
  \<^verbatim>\<open>recv_loop\<close>, \<^verbatim>\<open>opus_loop\<close> and \<^verbatim>\<open>send_loop\<close> under \<^verbatim>\<open>asyncio.gather\<close>.
  Bytes are 8-bit words, a PCM sample is the bit pattern of a float32 (samples are only
  moved, never computed with), a Python \<^verbatim>\<open>str\<close> is its list of code points.
\<close>

type_synonym byte = "8 word"
type_synonym bytes = "byte list"
type_synonym pcm = "32 word list"
type_synonym str = "nat list"

text \<open>One column \<^verbatim>\<open>codes[:, :, c: c + 1]\<close> of the codec output (batch size 1), and the
  token tensor of one model step along its second axis (batch size 1, one time step).\<close>

type_synonym column = "int list"
type_synonym tokens = "int list"

datatype level = Warning | Info | Error

datatype exn = WebSocketException | AssertionError | UnicodeEncodeError | Exception string

text \<open>The call sites of \<^verbatim>\<open>log\<close>; the message text itself is not modelled (one of them
  prints wall-clock time).\<close>

datatype log_msg =
    Accepted | DoneWithConnection | ConnectionClosed | DroppedConnection
  | UnsupportedMessageType | UnexpectedMessageType | WsException
  | EmptyMessage | UnknownMessageKind byte
  | TextToken str | FrameHandled

text \<open>Every call that leaves the coroutine is recorded, in program order.\<close>

datatype effect =
    Log level log_msg
  | Print nat bytes
  | WsPrepare
  | LockAcquire | LockRelease
  | NewWriter | NewReader
  | EcReset | LmReset
  | WsSend bytes
  | AppendBytes bytes
  | ReadPcm pcm
  | Encode pcm | Step column | Decode tokens
  | AppendPcm pcm
  | ReadBytes bytes

text \<open>
  \<^verbatim>\<open>ServerState\<close>: the codec (\<^verbatim>\<open>ec\<close> / \<^verbatim>\<open>mimi\<close>), the language model generator
  \<^verbatim>\<open>lm_gen\<close>, the tokenizer and \<^verbatim>\<open>frame_size\<close>. They are external collaborators: each
  call takes the state \<open>'m\<close> of the model resource and returns the new one, or raises.
\<close>

record 'm server_state =
  ec_encode :: "'m \<Rightarrow> pcm \<Rightarrow> exn + ('m \<times> column list)"
  ec_decode :: "'m \<Rightarrow> tokens \<Rightarrow> exn + ('m \<times> pcm)"
  ec_reset_streaming :: "'m \<Rightarrow> exn + 'm"
  lm_gen_step :: "'m \<Rightarrow> column \<Rightarrow> exn + ('m \<times> tokens option)"
  lm_gen_reset_streaming :: "'m \<Rightarrow> exn + 'm"
  dep_q :: nat
  id_to_piece :: "int \<Rightarrow> exn + str"
  frame_size :: int

section \<open>Python built-ins used by the loops\<close>

text \<open>\<^verbatim>\<open>xs[:n]\<close> and \<^verbatim>\<open>xs[n:]\<close>; a negative bound counts from the end.\<close>

definition py_upto :: "int \<Rightarrow> 'a list \<Rightarrow> 'a list" where
  "py_upto n xs = (if n < 0 then take (nat (int (length xs) + n)) xs else take (nat n) xs)"

definition py_from :: "int \<Rightarrow> 'a list \<Rightarrow> 'a list" where
  "py_from n xs = (if n < 0 then drop (nat (int (length xs) + n)) xs else drop (nat n) xs)"

text \<open>\<^verbatim>\<open>_text.replace(old, new)\<close> for one-character \<^verbatim>\<open>old\<close> and \<^verbatim>\<open>new\<close>.\<close>

definition replace :: "nat \<Rightarrow> nat \<Rightarrow> str \<Rightarrow> str" where
  "replace old new s = map (\<lambda>c. if c = old then new else c) s"

text \<open>\<^verbatim>\<open>bytes(_text, encoding="utf8")\<close>: a surrogate code point raises.\<close>

definition utf8_char :: "nat \<Rightarrow> exn + bytes" where
  "utf8_char c =
    (if c < 0x80 then Inr [of_nat c]
     else if c < 0x800 then Inr [of_nat (0xC0 + c div 0x40), of_nat (0x80 + c mod 0x40)]
     else if 0xD800 \<le> c \<and> c \<le> 0xDFFF then Inl UnicodeEncodeError
     else if c < 0x10000 then
       Inr [of_nat (0xE0 + c div 0x1000), of_nat (0x80 + c div 0x40 mod 0x40),
            of_nat (0x80 + c mod 0x40)]
     else
       Inr [of_nat (0xF0 + c div 0x40000), of_nat (0x80 + c div 0x1000 mod 0x40),
            of_nat (0x80 + c div 0x40 mod 0x40), of_nat (0x80 + c mod 0x40)])"

fun utf8 :: "str \<Rightarrow> exn + bytes" where
  "utf8 [] = Inr []"
| "utf8 (c # cs) =
    (case utf8_char c of
       Inl e \<Rightarrow> Inl e
     | Inr bs \<Rightarrow> (case utf8 cs of Inl e \<Rightarrow> Inl e | Inr rest \<Rightarrow> Inr (bs @ rest)))"

section \<open>The Ingest loop: one received message\<close>

text \<open>What the body of \<^verbatim>\<open>async for message in websocket\<close> does with one message:
  hand the payload to \<^verbatim>\<open>opus_reader.append_bytes\<close>, log and \<^verbatim>\<open>continue\<close>, or
  \<^verbatim>\<open>break\<close> (after an optional log line).\<close>

datatype recv_action =
    Forward bytes
  | Discard level log_msg
  | Break "(level \<times> log_msg) option"

text \<open>\<^verbatim>\<open>src/server_opus.py\<close>: the websockets library delivers \<^verbatim>\<open>bytes\<close> or \<^verbatim>\<open>str\<close>.\<close>

datatype ws_message = Bytes bytes | Str str

fun recv_loop :: "ws_message \<Rightarrow> recv_action" where
  "recv_loop (Str s) = Discard Error UnsupportedMessageType"
| "recv_loop (Bytes message) =
    (if length message = 0 then Discard Warning EmptyMessage
     else
       let kind = message ! 0 in
       if kind = 1 then Forward (drop 1 message)
       else Discard Warning (UnknownMessageKind kind))"

text \<open>\<^verbatim>\<open>src/moshi/moshi/server.py\<close>: aiohttp delivers a \<^verbatim>\<open>WSMessage\<close> with a type tag and
  a \<^verbatim>\<open>data\<close> field.\<close>

datatype WSMsgType =
    CONTINUATION | TEXT | BINARY | PING | PONG | CLOSE | CLOSING | CLOSED | ERROR

datatype ws_data = DataBytes bytes | DataStr str | DataNone

record WSMessage =
  msg_type :: WSMsgType
  msg_data :: ws_data

definition recv_loop_chat :: "WSMessage \<Rightarrow> recv_action" where
  "recv_loop_chat message =
    (if msg_type message = ERROR then Break (Some (Error, WsException))
     else if msg_type message = CLOSED then Break None
     else if msg_type message \<noteq> BINARY then Discard Error UnexpectedMessageType
     else
       (case msg_data message of
          DataBytes message \<Rightarrow>
            (if length message = 0 then Discard Warning EmptyMessage
             else
               let kind = message ! 0 in
               if kind = 1 then Forward (drop 1 message)
               else Discard Warning (UnknownMessageKind kind))
        | _ \<Rightarrow> Discard Error UnsupportedMessageType))"

section \<open>The Process loop\<close>

text \<open>Where a stretch of \<^verbatim>\<open>opus_loop\<close> stops: suspended in \<^verbatim>\<open>await websocket.send(msg)\<close>
  with the columns of the current frame still to do, at the end of the loop it was
  running, or with an exception.\<close>

datatype halt = Suspend "column list" | Finished | Raise exn

text \<open>Lines 164 to 166: the text fragment and the kind-2 message of a text token.\<close>

definition text_message :: "'m server_state \<Rightarrow> int \<Rightarrow> exn + (str \<times> bytes)" where
  "text_message S text_token =
    (case id_to_piece S text_token of
       Inl e \<Rightarrow> Inl e
     | Inr piece \<Rightarrow>
         let text = replace 0x2581 0x20 piece in
         (case utf8 text of Inl e \<Rightarrow> Inl e | Inr bs \<Rightarrow> Inr (text, 2 # bs)))"

definition emit :: "effect list \<Rightarrow> halt \<times> 'm \<times> effect list \<Rightarrow> halt \<times> 'm \<times> effect list" where
  "emit es r = (case r of (h, m, effs) \<Rightarrow> (h, m, es @ effs))"

text \<open>\<^verbatim>\<open>for c in range(codes.shape[-1])\<close>, from the column it is at.\<close>

fun steps_loop :: "'m server_state \<Rightarrow> 'm \<Rightarrow> column list \<Rightarrow> halt \<times> 'm \<times> effect list" where
  "steps_loop S m [] = (Finished, m, [])"
| "steps_loop S m (c # cs) =
    (case lm_gen_step S m c of
       Inl e \<Rightarrow> (Raise e, m, [Step c])
     | Inr (m1, None) \<Rightarrow> emit [Step c] (steps_loop S m1 cs)
     | Inr (m1, Some toks) \<Rightarrow>
         if length toks \<noteq> dep_q S + 1 then (Raise AssertionError, m1, [Step c])
         else
           (case ec_decode S m1 (drop 1 toks) of
              Inl e \<Rightarrow> (Raise e, m1, [Step c, Decode (drop 1 toks)])
            | Inr (m2, main_pcm) \<Rightarrow>
                let text_token = hd toks in
                if text_token \<noteq> 0 \<and> text_token \<noteq> 3 then
                  (case text_message S text_token of
                     Inl e \<Rightarrow>
                       (Raise e, m2, [Step c, Decode (drop 1 toks), AppendPcm main_pcm])
                   | Inr (text, msg) \<Rightarrow>
                       (Suspend cs, m2,
                        [Step c, Decode (drop 1 toks), AppendPcm main_pcm,
                         Log Info (TextToken text), WsSend msg]))
                else
                  emit [Step c, Decode (drop 1 toks), AppendPcm main_pcm]
                    (steps_loop S m2 cs)))"

text \<open>\<^verbatim>\<open>while all_pcm_data.shape[-1] >= self.frame_size\<close>. The loop need not end (a
  \<^verbatim>\<open>frame_size\<close> of 0 never shortens the buffer), so not returning is the value \<open>None\<close>.
  \<open>acc\<close> collects the effects so far.\<close>

partial_function (option) frames_loop ::
  "'m server_state \<Rightarrow> 'm \<Rightarrow> pcm \<Rightarrow> effect list \<Rightarrow> (halt \<times> 'm \<times> pcm \<times> effect list) option"
where
  "frames_loop S m all_pcm_data acc =
    (if frame_size S \<le> int (length all_pcm_data) then
       (let chunk = py_upto (frame_size S) all_pcm_data;
            all_pcm_data = py_from (frame_size S) all_pcm_data
        in
          case ec_encode S m chunk of
            Inl e \<Rightarrow> Some (Raise e, m, all_pcm_data, acc @ [Encode chunk])
          | Inr (m1, codes) \<Rightarrow>
              (case steps_loop S m1 codes of
                 (Finished, m2, effs) \<Rightarrow>
                   frames_loop S m2 all_pcm_data
                     (acc @ Encode chunk # effs @ [Log Info FrameHandled])
               | (h, m2, effs) \<Rightarrow> Some (h, m2, all_pcm_data, acc @ Encode chunk # effs)))
     else Some (Finished, m, all_pcm_data, acc))"

declare frames_loop.simps [code]

text \<open>Resuming after \<^verbatim>\<open>await websocket.send(msg)\<close> returned: the remaining columns of the
  frame, its log line, then the \<^verbatim>\<open>while\<close> loop again.\<close>

definition after_send ::
  "'m server_state \<Rightarrow> 'm \<Rightarrow> column list \<Rightarrow> pcm \<Rightarrow> (halt \<times> 'm \<times> pcm \<times> effect list) option"
where
  "after_send S m cs all_pcm_data =
    (case steps_loop S m cs of
       (Finished, m2, effs) \<Rightarrow> frames_loop S m2 all_pcm_data (effs @ [Log Info FrameHandled])
     | (h, m2, effs) \<Rightarrow> Some (h, m2, all_pcm_data, effs))"

section \<open>The session: three coroutines under one handler\<close>

text \<open>A coroutine is not yet started, suspended at one of its \<^verbatim>\<open>await\<close>s, returned, or
  ended by an exception.\<close>

datatype 'k task = NotStarted | Suspended 'k | Done | Failed exn

datatype opus_wait = PollSleep | TextSend "column list"
datatype recv_wait = NextMessage
datatype send_wait = EgressSleep | AudioSend

datatype handler_pc = HWaitLock | HHandshake | HGather | HReturned | HRaised exn

record 'm session =
  close :: bool
  model :: 'm
  all_pcm :: "pcm option"
  handler :: handler_pc
  gather_exn :: "exn option"
  opus_task :: "opus_wait task"
  recv_task :: "recv_wait task"
  send_task :: "send_wait task"
  trace :: "effect list"

text \<open>What the event loop does next: it resumes one suspended coroutine, with the value
  (or exception) of the call the coroutine was waiting for.\<close>

datatype 'msg event =
    LockGranted
  | HandshakeSent "exn option"
  | HandlerWake
  | OpusWake pcm
  | OpusSent "exn option"
  | Message 'msg
  | MessagesEnd
  | MessagesRaise exn
  | SendWake bytes
  | SendSent "exn option"

text \<open>The places where the two servers differ.\<close>

record 'msg variant =
  on_message :: "'msg \<Rightarrow> recv_action"
  catches_ws_exception :: bool
  debug_print :: bool
  prepares :: bool

definition server_opus :: "ws_message variant" where
  "server_opus =
    \<lparr>on_message = recv_loop, catches_ws_exception = True, debug_print = True,
     prepares = False\<rparr>"

definition moshi_server :: "WSMessage variant" where
  "moshi_server =
    \<lparr>on_message = recv_loop_chat, catches_ws_exception = False, debug_print = False,
     prepares = True\<rparr>"

definition emits :: "effect list \<Rightarrow> 'm session \<Rightarrow> 'm session" where
  "emits es \<sigma> = \<sigma>\<lparr>trace := trace \<sigma> @ es\<rparr>"

text \<open>\<^verbatim>\<open>while True: if close: return; await asyncio.sleep(0.001)\<close>.\<close>

definition loop_top :: "bool \<Rightarrow> 'k \<Rightarrow> 'k task" where
  "loop_top closing sleep = (if closing then Done else Suspended sleep)"

text \<open>\<^verbatim>\<open>asyncio.gather\<close> hands the first exception of its coroutines to the handler; the
  other coroutines are not cancelled.\<close>

definition note_failure :: "exn \<Rightarrow> 'm session \<Rightarrow> 'm session" where
  "note_failure e \<sigma> =
    \<sigma>\<lparr>gather_exn := (case gather_exn \<sigma> of None \<Rightarrow> Some e | Some e0 \<Rightarrow> Some e0)\<rparr>"

definition opus_settle ::
  "'m session \<Rightarrow> effect list \<Rightarrow> halt \<times> 'm \<times> pcm \<times> effect list \<Rightarrow> 'm session"
where
  "opus_settle \<sigma> pre r =
    (case r of (h, m, buf, effs) \<Rightarrow>
      (let \<sigma>1 = \<sigma>\<lparr>model := m, all_pcm := Some buf, trace := trace \<sigma> @ pre @ effs\<rparr> in
       case h of
         Finished \<Rightarrow> \<sigma>1\<lparr>opus_task := loop_top (close \<sigma>) PollSleep\<rparr>
       | Suspend cs \<Rightarrow> \<sigma>1\<lparr>opus_task := Suspended (TextSend cs)\<rparr>
       | Raise e \<Rightarrow> note_failure e (\<sigma>1\<lparr>opus_task := Failed e\<rparr>)))"

text \<open>\<^verbatim>\<open>opus_loop\<close> wakes from its sleep: lines 140 to 169.\<close>

definition opus_loop :: "'m server_state \<Rightarrow> 'm session \<Rightarrow> pcm \<Rightarrow> 'm session option" where
  "opus_loop S \<sigma> pcm =
    (if length pcm = 0 then
       Some (emits [ReadPcm pcm] (\<sigma>\<lparr>opus_task := loop_top (close \<sigma>) PollSleep\<rparr>))
     else
       let all_pcm_data = (case all_pcm \<sigma> of None \<Rightarrow> pcm | Some d \<Rightarrow> d @ pcm) in
       map_option (opus_settle \<sigma> [ReadPcm pcm]) (frames_loop S (model \<sigma>) all_pcm_data []))"

definition opus_sent ::
  "'m server_state \<Rightarrow> 'm session \<Rightarrow> column list \<Rightarrow> exn option \<Rightarrow> 'm session option"
where
  "opus_sent S \<sigma> cs outcome =
    (case outcome of
       Some e \<Rightarrow> Some (note_failure e (\<sigma>\<lparr>opus_task := Failed e\<rparr>))
     | None \<Rightarrow>
         map_option (opus_settle \<sigma> [])
           (after_send S (model \<sigma>) cs (case all_pcm \<sigma> of None \<Rightarrow> [] | Some d \<Rightarrow> d)))"

text \<open>The \<^verbatim>\<open>finally\<close> clause of \<^verbatim>\<open>recv_loop\<close>.\<close>

definition recv_finally :: "recv_wait task \<Rightarrow> 'm session \<Rightarrow> 'm session" where
  "recv_finally t \<sigma> =
    emits [Log Info ConnectionClosed] (\<sigma>\<lparr>close := True, recv_task := t\<rparr>)"

definition recv_message :: "'msg variant \<Rightarrow> 'm session \<Rightarrow> 'msg \<Rightarrow> 'm session" where
  "recv_message V \<sigma> message =
    (case on_message V message of
       Forward payload \<Rightarrow> emits [AppendBytes payload] \<sigma>
     | Discard lvl text \<Rightarrow> emits [Log lvl text] \<sigma>
     | Break None \<Rightarrow> recv_finally Done \<sigma>
     | Break (Some (lvl, text)) \<Rightarrow> recv_finally Done (emits [Log lvl text] \<sigma>))"

definition recv_raise :: "'msg variant \<Rightarrow> 'm session \<Rightarrow> exn \<Rightarrow> 'm session" where
  "recv_raise V \<sigma> e =
    (if catches_ws_exception V \<and> e = WebSocketException then
       recv_finally Done (emits [Log Error DroppedConnection] \<sigma>)
     else note_failure e (recv_finally (Failed e) \<sigma>))"

text \<open>\<^verbatim>\<open>send_loop\<close> wakes from its sleep.\<close>

definition send_loop :: "'msg variant \<Rightarrow> 'm session \<Rightarrow> bytes \<Rightarrow> 'm session" where
  "send_loop V \<sigma> msg =
    (if length msg > 0 then
       emits
         ([ReadBytes msg] @ (if debug_print V then [Print (length msg) (take 16 msg)] else [])
          @ [WsSend (1 # msg)])
         (\<sigma>\<lparr>send_task := Suspended AudioSend\<rparr>)
     else emits [ReadBytes msg] (\<sigma>\<lparr>send_task := loop_top (close \<sigma>) EgressSleep\<rparr>))"

definition send_sent :: "'m session \<Rightarrow> exn option \<Rightarrow> 'm session" where
  "send_sent \<sigma> outcome =
    (case outcome of
       Some e \<Rightarrow> note_failure e (\<sigma>\<lparr>send_task := Failed e\<rparr>)
     | None \<Rightarrow> \<sigma>\<lparr>send_task := loop_top (close \<sigma>) EgressSleep\<rparr>)"

text \<open>The handler: \<^verbatim>\<open>handle_conn\<close> / \<^verbatim>\<open>handle_chat\<close> from its first line to the lock.\<close>

definition accept_trace :: "'msg variant \<Rightarrow> effect list" where
  "accept_trace V = (if prepares V then [WsPrepare] else []) @ [Log Info Accepted]"

definition accepted :: "'msg variant \<Rightarrow> 'm \<Rightarrow> 'm session" where
  "accepted V m =
    \<lparr>close = False, model = m, all_pcm = None, handler = HWaitLock, gather_exn = None,
     opus_task = NotStarted, recv_task = NotStarted, send_task = NotStarted,
     trace = accept_trace V\<rparr>"

text \<open>Inside \<^verbatim>\<open>async with self.lock\<close>, up to the handshake.\<close>

definition startup :: "'m server_state \<Rightarrow> 'm session \<Rightarrow> 'm session" where
  "startup S \<sigma> =
    (let \<sigma>1 = emits [LockAcquire, NewWriter, NewReader, EcReset] \<sigma> in
     case ec_reset_streaming S (model \<sigma>1) of
       Inl e \<Rightarrow> emits [LockRelease] (\<sigma>1\<lparr>handler := HRaised e\<rparr>)
     | Inr m1 \<Rightarrow>
         (let \<sigma>2 = emits [LmReset] (\<sigma>1\<lparr>model := m1\<rparr>) in
          case lm_gen_reset_streaming S m1 of
            Inl e \<Rightarrow> emits [LockRelease] (\<sigma>2\<lparr>handler := HRaised e\<rparr>)
          | Inr m2 \<Rightarrow> emits [WsSend [0]] (\<sigma>2\<lparr>model := m2, handler := HHandshake\<rparr>)))"

text \<open>The handshake is out: \<^verbatim>\<open>asyncio.gather\<close> starts the three coroutines, each of which
  runs to its first \<^verbatim>\<open>await\<close> (\<^verbatim>\<open>close\<close> is still \<^verbatim>\<open>False\<close>).\<close>

definition handshake_sent :: "'m session \<Rightarrow> exn option \<Rightarrow> 'm session" where
  "handshake_sent \<sigma> outcome =
    (case outcome of
       Some e \<Rightarrow> emits [LockRelease] (\<sigma>\<lparr>handler := HRaised e\<rparr>)
     | None \<Rightarrow>
         \<sigma>\<lparr>handler := HGather, opus_task := Suspended PollSleep,
           recv_task := Suspended NextMessage, send_task := Suspended EgressSleep\<rparr>)"

text \<open>The handler resumes from \<^verbatim>\<open>await asyncio.gather(...)\<close> once an exception was raised
  or the three coroutines returned, and leaves the \<^verbatim>\<open>async with\<close> block.\<close>

definition handler_wake :: "'m session \<Rightarrow> 'm session" where
  "handler_wake \<sigma> =
    (case gather_exn \<sigma> of
       Some e \<Rightarrow> emits [LockRelease] (\<sigma>\<lparr>handler := HRaised e\<rparr>)
     | None \<Rightarrow>
         if opus_task \<sigma> = Done \<and> recv_task \<sigma> = Done \<and> send_task \<sigma> = Done then
           emits [LockRelease, Log Info DoneWithConnection] (\<sigma>\<lparr>handler := HReturned\<rparr>)
         else \<sigma>)"

text \<open>One step of the event loop. An event for a coroutine that is not waiting for it
  changes nothing.\<close>

definition step ::
  "'m server_state \<Rightarrow> 'msg variant \<Rightarrow> 'm session \<Rightarrow> 'msg event \<Rightarrow> 'm session option"
where
  "step S V \<sigma> ev =
    (case ev of
       LockGranted \<Rightarrow> Some (if handler \<sigma> = HWaitLock then startup S \<sigma> else \<sigma>)
     | HandshakeSent outcome \<Rightarrow>
         Some (if handler \<sigma> = HHandshake then handshake_sent \<sigma> outcome else \<sigma>)
     | HandlerWake \<Rightarrow> Some (if handler \<sigma> = HGather then handler_wake \<sigma> else \<sigma>)
     | OpusWake pcm \<Rightarrow>
         (if opus_task \<sigma> = Suspended PollSleep then opus_loop S \<sigma> pcm else Some \<sigma>)
     | OpusSent outcome \<Rightarrow>
         (case opus_task \<sigma> of
            Suspended (TextSend cs) \<Rightarrow> opus_sent S \<sigma> cs outcome
          | _ \<Rightarrow> Some \<sigma>)
     | Message message \<Rightarrow>
         Some (if recv_task \<sigma> = Suspended NextMessage then recv_message V \<sigma> message else \<sigma>)
     | MessagesEnd \<Rightarrow>
         Some (if recv_task \<sigma> = Suspended NextMessage then recv_finally Done \<sigma> else \<sigma>)
     | MessagesRaise e \<Rightarrow>
         Some (if recv_task \<sigma> = Suspended NextMessage then recv_raise V \<sigma> e else \<sigma>)
     | SendWake msg \<Rightarrow>
         Some (if send_task \<sigma> = Suspended EgressSleep then send_loop V \<sigma> msg else \<sigma>)
     | SendSent outcome \<Rightarrow>
         Some (if send_task \<sigma> = Suspended AudioSend then send_sent \<sigma> outcome else \<sigma>))"

fun run ::
  "'m server_state \<Rightarrow> 'msg variant \<Rightarrow> 'm session \<Rightarrow> 'msg event list \<Rightarrow> 'm session option"
where
  "run S V \<sigma> [] = Some \<sigma>"
| "run S V \<sigma> (ev # evs) =
    (case step S V \<sigma> ev of None \<Rightarrow> None | Some \<sigma>' \<Rightarrow> run S V \<sigma>' evs)"

definition handle_conn :: "'m server_state \<Rightarrow> 'm \<Rightarrow> ws_message event list \<Rightarrow> 'm session option" where
  "handle_conn S m evs = run S server_opus (accepted server_opus m) evs"

definition handle_chat :: "'m server_state \<Rightarrow> 'm \<Rightarrow> WSMessage event list \<Rightarrow> 'm session option" where
  "handle_chat S m evs = run S moshi_server (accepted moshi_server m) evs"

section \<open>Observations on a trace\<close>

text \<open>The frames handed to \<^verbatim>\<open>encode\<close> and the chunks returned by \<^verbatim>\<open>read_pcm\<close>, in
  the order of the calls.\<close>

definition encoded :: "effect list \<Rightarrow> pcm list" where
  "encoded tr = concat (map (\<lambda>x. case x of Encode f \<Rightarrow> [f] | _ \<Rightarrow> []) tr)"

definition chunks :: "effect list \<Rightarrow> pcm list" where
  "chunks tr = concat (map (\<lambda>x. case x of ReadPcm p \<Rightarrow> [p] | _ \<Rightarrow> []) tr)"

text \<open>The accumulation buffer: \<^verbatim>\<open>all_pcm_data\<close> is \<^verbatim>\<open>None\<close> until the first samples.\<close>

definition buffer :: "'m session \<Rightarrow> pcm" where
  "buffer \<sigma> = (case all_pcm \<sigma> of None \<Rightarrow> [] | Some d \<Rightarrow> d)"

text \<open>The calls into the model resource.\<close>

definition model_calls :: "effect list \<Rightarrow> effect list" where
  "model_calls tr =
    filter (\<lambda>x. case x of Encode f \<Rightarrow> True | Step c \<Rightarrow> True | Decode t \<Rightarrow> True | _ \<Rightarrow> False) tr"

text \<open>What a stretch of \<^verbatim>\<open>opus_loop\<close> can emit.\<close>

fun opus_effect :: "effect \<Rightarrow> bool" where
  "opus_effect (Encode f) = True"
| "opus_effect (Step c) = True"
| "opus_effect (Decode t) = True"
| "opus_effect (AppendPcm p) = True"
| "opus_effect (Log l t) = (l = Info \<and> (t = FrameHandled \<or> (\<exists>s. t = TextToken s)))"
| "opus_effect (WsSend b) = (b \<noteq> [] \<and> hd b = 2)"
| "opus_effect _ = False"

text \<open>What a stretch of \<^verbatim>\<open>opus_loop\<close> that starts with the buffer \<open>buf\<close> leaves behind:
  the frames it encoded followed by the new buffer are \<open>buf\<close>, every frame has
  \<^verbatim>\<open>frame_size\<close> samples, and the \<^verbatim>\<open>while\<close> loop only ends on a short buffer.\<close>

definition opus_outcome ::
  "'m server_state \<Rightarrow> pcm \<Rightarrow> halt \<times> 'm \<times> pcm \<times> effect list \<Rightarrow> bool"
where
  "opus_outcome S buf r =
    (case r of (h, m', buf', effs) \<Rightarrow>
       concat (encoded effs) @ buf' = buf
       \<and> list_all (\<lambda>f. int (length f) = frame_size S) (encoded effs)
       \<and> (h \<noteq> Finished \<or> int (length buf') < frame_size S)
       \<and> chunks effs = []
       \<and> list_all opus_effect effs)"

definition conserved :: "'m session \<Rightarrow> bool" where
  "conserved \<sigma> = (concat (encoded (trace \<sigma>)) @ buffer \<sigma> = concat (chunks (trace \<sigma>)))"

text \<open>The Process loop is at the top of its \<^verbatim>\<open>while True\<close> loop: not yet started, in the
  poll sleep, or returned.\<close>

definition between_iterations :: "'m session \<Rightarrow> bool" where
  "between_iterations \<sigma> =
    (opus_task \<sigma> = NotStarted \<or> opus_task \<sigma> = Suspended PollSleep \<or> opus_task \<sigma> = Done)"

definition framed :: "'m server_state \<Rightarrow> 'm session \<Rightarrow> bool" where
  "framed S \<sigma> =
    (list_all (\<lambda>f. int (length f) = frame_size S) (encoded (trace \<sigma>))
     \<and> (\<not> between_iterations \<sigma> \<or> int (length (buffer \<sigma>)) < frame_size S))"

text \<open>Until the handshake is out, none of the three coroutines exists.\<close>

definition dormant :: "'m session \<Rightarrow> bool" where
  "dormant \<sigma> =
    ((handler \<sigma> \<noteq> HWaitLock \<and> handler \<sigma> \<noteq> HHandshake)
     \<or> (opus_task \<sigma> = NotStarted \<and> recv_task \<sigma> = NotStarted \<and> send_task \<sigma> = NotStarted))"



text \<open>What only the three loops do: calls of the adapter and of the model resource, and
  messages of kind 1 and 2.\<close>

fun pipeline_effect :: "effect \<Rightarrow> bool" where
  "pipeline_effect (WsSend b) = (b \<noteq> [0])"
| "pipeline_effect (AppendBytes b) = True"
| "pipeline_effect (ReadPcm p) = True"
| "pipeline_effect (Encode f) = True"
| "pipeline_effect (Step c) = True"
| "pipeline_effect (Decode t) = True"
| "pipeline_effect (AppendPcm p) = True"
| "pipeline_effect (ReadBytes b) = True"
| "pipeline_effect (Print n b) = True"
| "pipeline_effect _ = False"





definition framed_inv :: "'m server_state \<Rightarrow> 'm session \<Rightarrow> bool" where
  "framed_inv S \<sigma> = (framed S \<sigma> \<and> dormant \<sigma>)"

section \<open>A small instance of the collaborators\<close>

text \<open>Frames of two samples; the codec yields one column per frame and fails on a frame
  that starts with the sample \<open>0xFF\<close>; the model needs one step of warm-up and then
  answers the column \<open>c\<close> with the tokens \<open>hd c # c\<close>; the tokenizer has one piece.\<close>

definition demo_server :: "nat server_state" where
  "demo_server =
    \<lparr>ec_encode =
       (\<lambda>m chunk. if hd chunk = 0xFF then Inl (Exception ''encode'') else Inr (m, [map uint chunk])),
     ec_decode = (\<lambda>m toks. Inr (m, map word_of_int toks)),
     ec_reset_streaming = (\<lambda>m. Inr 0),
     lm_gen_step = (\<lambda>m c. Inr (Suc m, if m = 0 then None else Some (hd c # c))),
     lm_gen_reset_streaming = (\<lambda>m. Inr m),
     dep_q = 2,
     id_to_piece = (\<lambda>t. Inr [0x2581, 0x68, 0x69]),
     frame_size = 2\<rparr>"

text \<open>A session of \<^verbatim>\<open>handle_conn\<close> on it, right after the handshake.\<close>

definition demo_session :: "nat session" where
  "demo_session = handshake_sent (startup demo_server (accepted server_opus 0)) None"


section \<open>Basic facts\<close>

lemmas eval_defs =
  handle_conn_def handle_chat_def accepted_def accept_trace_def server_opus_def
  moshi_server_def step_def startup_def emits_def demo_server_def demo_session_def
  handshake_sent_def opus_loop_def frames_loop.simps py_upto_def py_from_def emit_def
  opus_settle_def loop_top_def text_message_def replace_def utf8_char_def recv_message_def
  opus_sent_def after_send_def handler_wake_def note_failure_def recv_finally_def
  recv_raise_def send_loop_def send_sent_def encoded_def chunks_def buffer_def Let_def
  recv_loop_chat_def

lemmas other_step_defs =
  step_def emits_def startup_def handshake_sent_def handler_wake_def recv_message_def
  recv_finally_def recv_raise_def send_loop_def send_sent_def note_failure_def Let_def

lemma encoded_append: "encoded (xs @ ys) = encoded xs @ encoded ys"
  by (simp add: encoded_def)

lemma chunks_append: "chunks (xs @ ys) = chunks xs @ chunks ys"
  by (simp add: chunks_def)

lemma encoded_simps:
  "encoded [] = []"
  "encoded (Encode f # tr) = f # encoded tr"
  "encoded (Log l t # tr) = encoded tr"
  "encoded (ReadPcm p # tr) = encoded tr"
  by (simp_all add: encoded_def)

lemma chunks_simps:
  "chunks [] = []"
  "chunks (Encode f # tr) = chunks tr"
  "chunks (Log l t # tr) = chunks tr"
  "chunks (ReadPcm p # tr) = p # chunks tr"
  by (simp_all add: chunks_def)


text \<open>A slice and its complement make up the list, whatever the bound.\<close>

lemma py_split: "py_upto n xs @ py_from n xs = xs"
  by (simp add: py_upto_def py_from_def)

lemma py_upto_length: "0 < n \<Longrightarrow> n \<le> int (length xs) \<Longrightarrow> int (length (py_upto n xs)) = n"
  by (simp add: py_upto_def)

lemma py_from_length: "0 < n \<Longrightarrow> n \<le> int (length xs) \<Longrightarrow> length (py_from n xs) < length xs"
  by (simp add: py_from_def)

lemma text_message_kind: "text_message S t = Inr (text, msg) \<Longrightarrow> msg \<noteq> [] \<and> hd msg = 2"
  by (auto simp: text_message_def Let_def split: sum.splits)



text \<open>An invariant of every step holds after every run.\<close>

lemma run_invariant:
  assumes stp: "\<And>\<sigma> ev. I \<sigma> \<Longrightarrow> \<exists>\<sigma>'. step S V \<sigma> ev = Some \<sigma>' \<and> I \<sigma>'"
    and init: "I \<sigma>"
  shows "\<exists>\<sigma>'. run S V \<sigma> evs = Some \<sigma>' \<and> I \<sigma>'"
  using init
proof (induction evs arbitrary: \<sigma>)
  case Nil
  then show ?case by simp
next
  case (Cons ev evs)
  from stp[OF Cons.prems, of ev] obtain \<sigma>1 where "step S V \<sigma> ev = Some \<sigma>1" "I \<sigma>1" by blast
  with Cons.IH[of \<sigma>1] show ?case by simp
qed

section \<open>The Ingest loop\<close>

text \<open>
  C9. A binary message that is the single byte 1 is not discarded: the payload after the
  kind byte, the empty byte string, goes to \<^verbatim>\<open>opus_reader.append_bytes\<close>, and nothing
  else of the session changes. This holds in both servers.
\<close>

theorem kind_byte_alone_forwards_empty_payload:
  "recv_message server_opus \<sigma> (Bytes [1]) = \<sigma>\<lparr>trace := trace \<sigma> @ [AppendBytes []]\<rparr>
   \<and> recv_message moshi_server \<sigma> \<lparr>msg_type = BINARY, msg_data = DataBytes [1]\<rparr>
       = \<sigma>\<lparr>trace := trace \<sigma> @ [AppendBytes []]\<rparr>"
  by (simp add: recv_message_def server_opus_def moshi_server_def recv_loop_chat_def emits_def)

section \<open>The Process loop: what one stretch does\<close>

lemma steps_loop_effects:
  "steps_loop S m cs = (h, m', effs) \<Longrightarrow> (\<forall>x \<in> set effs. opus_effect x) \<and> encoded effs = [] \<and> chunks effs = []"
proof (induction cs arbitrary: m h m' effs)
  case Nil
  then show ?case by (simp add: encoded_def chunks_def)
next
  case (Cons c cs)
  show ?case
  proof (cases "lm_gen_step S m c")
    case (Inl e)
    with Cons.prems show ?thesis by (auto simp: encoded_def chunks_def)
  next
    case (Inr r)
    obtain m1 ot where r: "r = (m1, ot)" by (cases r)
    show ?thesis
    proof (cases ot)
      case None
      obtain h1 m1' e1 where rec: "steps_loop S m1 cs = (h1, m1', e1)" by (cases "steps_loop S m1 cs")
      from Cons.IH[OF rec] Cons.prems Inr r None rec show ?thesis
        by (auto simp: emit_def encoded_def chunks_def)
    next
      case (Some toks)
      show ?thesis
      proof (cases "length toks \<noteq> dep_q S + 1")
        case True
        with Cons.prems Inr r Some show ?thesis by (auto simp: encoded_def chunks_def)
      next
        case False
        show ?thesis
        proof (cases "ec_decode S m1 (drop 1 toks)")
          case (Inl e)
          with Cons.prems Inr r Some False show ?thesis by (auto simp: encoded_def chunks_def)
        next
          case dec: (Inr d)
          obtain m2 main_pcm where d: "d = (m2, main_pcm)" by (cases d)
          show ?thesis
          proof (cases "hd toks \<noteq> 0 \<and> hd toks \<noteq> 3")
            case True
            with Cons.prems Inr r Some False dec d show ?thesis
              using text_message_kind[of S "hd toks"]
              by (auto simp: encoded_def chunks_def Let_def split: sum.splits)
          next
            case reserved: False
            obtain h1 m1' e1 where rec: "steps_loop S m2 cs = (h1, m1', e1)" by (cases "steps_loop S m2 cs")
            from Cons.IH[OF rec] Cons.prems Inr r Some False dec d reserved rec show ?thesis
              by (auto simp: emit_def encoded_def chunks_def Let_def)
          qed
        qed
      qed
    qed
  qed
qed

text \<open>With a positive \<^verbatim>\<open>frame_size\<close> the \<^verbatim>\<open>while\<close> loop returns: every round shortens
  the buffer.\<close>

lemma frames_loop_result:
  assumes fs: "0 < frame_size S"
  shows "\<exists>h m' buf' effs. frames_loop S m buf acc = Some (h, m', buf', acc @ effs)
           \<and> concat (encoded effs) @ buf' = buf
           \<and> (\<forall>f \<in> set (encoded effs). int (length f) = frame_size S)
           \<and> (h = Finished \<longrightarrow> int (length buf') < frame_size S)
           \<and> chunks effs = []
           \<and> (\<forall>x \<in> set effs. opus_effect x)"
proof (induction "length buf" arbitrary: m buf acc rule: less_induct)
  case less
  let ?n = "frame_size S"
  show ?case
  proof (cases "?n \<le> int (length buf)")
    case False
    then show ?thesis
      by (subst frames_loop.simps) (simp add: encoded_simps chunks_simps encoded_append chunks_append)
  next
    case True
    let ?chunk = "py_upto ?n buf" and ?rest = "py_from ?n buf"
    have len: "int (length ?chunk) = ?n" using fs True by (rule py_upto_length)
    have shorter: "length ?rest < length buf" using fs True by (rule py_from_length)
    have split: "?chunk @ ?rest = buf" by (rule py_split)
    show ?thesis
    proof (cases "ec_encode S m ?chunk")
      case (Inl e)
      have "frames_loop S m buf acc = Some (Raise e, m, ?rest, acc @ [Encode ?chunk])"
        using True Inl by (subst frames_loop.simps) simp
      then show ?thesis using len split by (simp add: encoded_simps chunks_simps encoded_append chunks_append)
    next
      case (Inr r)
      obtain m1 codes where r: "r = (m1, codes)" by (cases r)
      obtain h1 m2 e1 where st: "steps_loop S m1 codes = (h1, m2, e1)"
        by (cases "steps_loop S m1 codes")
      note se = steps_loop_effects[OF st]
      show ?thesis
      proof (cases "h1 = Finished")
        case False
        have "frames_loop S m buf acc = Some (h1, m2, ?rest, acc @ Encode ?chunk # e1)"
          using True Inr r st False by (subst frames_loop.simps) (cases h1; simp)
        then show ?thesis using len split se False
          by (simp add: encoded_simps chunks_simps encoded_append chunks_append)
      next
        case fin: True
        let ?acc = "acc @ Encode ?chunk # e1 @ [Log Info FrameHandled]"
        have unf: "frames_loop S m buf acc = frames_loop S m2 ?rest ?acc"
          using True Inr r st fin by (subst frames_loop.simps) simp
        from less[OF shorter, of m2 ?acc]
        obtain h m' buf' effs where
          rec: "frames_loop S m2 ?rest ?acc = Some (h, m', buf', ?acc @ effs)"
          and c1: "concat (encoded effs) @ buf' = ?rest"
          and c2: "\<forall>f \<in> set (encoded effs). int (length f) = ?n"
          and c3: "h = Finished \<longrightarrow> int (length buf') < ?n"
          and c4: "chunks effs = []"
          and c5: "\<forall>x \<in> set effs. opus_effect x"
          by blast
        let ?effs = "Encode ?chunk # e1 @ Log Info FrameHandled # effs"
        have "frames_loop S m buf acc = Some (h, m', buf', acc @ ?effs)"
          using unf rec by simp
        moreover have "concat (encoded ?effs) @ buf' = buf"
          using c1 split se by (simp add: encoded_simps encoded_append)
        moreover have "\<forall>f \<in> set (encoded ?effs). int (length f) = ?n"
          using c2 len se by (auto simp: encoded_simps encoded_append)
        moreover have "chunks ?effs = []"
          using c4 se by (simp add: chunks_simps chunks_append)
        moreover have "\<forall>x \<in> set ?effs. opus_effect x"
          using c5 se by auto
        ultimately show ?thesis using c3 by blast
      qed
    qed
  qed
qed

text \<open>Positivity is needed: with a \<^verbatim>\<open>frame_size\<close> of 0 and a codec that returns no
  column, the \<^verbatim>\<open>while\<close> loop never returns.\<close>

lemma frames_loop_spins:
  assumes r: "frames_loop S m buf acc = Some r"
  shows "\<not> (frame_size S = 0 \<and> (\<forall>m chunk. ec_encode S m chunk = Inr (m, [])))"
proof (rule frames_loop.raw_induct[where P = "\<lambda>S m buf acc r. \<not> (frame_size S = 0 \<and> (\<forall>m chunk. ec_encode S m chunk = Inr (m, [])))", OF _ r])
  fix f :: "'a server_state \<Rightarrow> 'a \<Rightarrow> pcm \<Rightarrow> effect list \<Rightarrow> (halt \<times> 'a \<times> pcm \<times> effect list) option"
    and S m buf acc r
  assume ih: "\<And>S m buf acc r. f S m buf acc = Some r \<Longrightarrow> \<not> (frame_size S = 0 \<and> (\<forall>m chunk. ec_encode S m chunk = Inr (m, [])))"
    and b: "(if frame_size S \<le> int (length buf) then
       (let chunk = py_upto (frame_size S) buf;
            all_pcm_data = py_from (frame_size S) buf
        in
          case ec_encode S m chunk of
            Inl e \<Rightarrow> Some (Raise e, m, all_pcm_data, acc @ [Encode chunk])
          | Inr (m1, codes) \<Rightarrow>
              (case steps_loop S m1 codes of
                 (Finished, m2, effs) \<Rightarrow>
                   f S m2 all_pcm_data
                     (acc @ Encode chunk # effs @ [Log Info FrameHandled])
               | (h, m2, effs) \<Rightarrow> Some (h, m2, all_pcm_data, acc @ Encode chunk # effs)))
     else Some (Finished, m, buf, acc)) = Some r"
  show "\<not> (frame_size S = 0 \<and> (\<forall>m chunk. ec_encode S m chunk = Inr (m, [])))"
  proof
    assume a: "frame_size S = 0 \<and> (\<forall>m chunk. ec_encode S m chunk = Inr (m, []))"
    with b have "f S m (py_from 0 buf) (acc @ Encode (py_upto 0 buf) # [] @ [Log Info FrameHandled]) = Some r"
      by (simp add: Let_def)
    from ih[OF this] a show False by blast
  qed
qed

lemma frames_loop_diverges:
  "frame_size S = 0 \<Longrightarrow> (\<And>m chunk. ec_encode S m chunk = Inr (m, [])) \<Longrightarrow>
   frames_loop S m buf acc = None"
  using frames_loop_spins[of S m buf acc] by (cases "frames_loop S m buf acc") auto

lemma after_send_result:
  assumes fs: "0 < frame_size S"
  shows "\<exists>h m' buf' effs. after_send S m cs buf = Some (h, m', buf', effs)
           \<and> concat (encoded effs) @ buf' = buf
           \<and> (\<forall>f \<in> set (encoded effs). int (length f) = frame_size S)
           \<and> (h = Finished \<longrightarrow> int (length buf') < frame_size S)
           \<and> chunks effs = []
           \<and> (\<forall>x \<in> set effs. opus_effect x)"
proof -
  obtain h1 m2 e1 where st: "steps_loop S m cs = (h1, m2, e1)"
    by (cases "steps_loop S m cs")
  note se = steps_loop_effects[OF st]
  show ?thesis
  proof (cases "h1 = Finished")
    case False
    then have "after_send S m cs buf = Some (h1, m2, buf, e1)"
      using st by (cases h1) (simp_all add: after_send_def)
    then show ?thesis using se False by simp
  next
    case True
    let ?acc = "e1 @ [Log Info FrameHandled]"
    from frames_loop_result[OF fs, of m2 buf ?acc]
    obtain h m' buf' effs where
      rec: "frames_loop S m2 buf ?acc = Some (h, m', buf', ?acc @ effs)"
      and c1: "concat (encoded effs) @ buf' = buf"
      and c2: "\<forall>f \<in> set (encoded effs). int (length f) = frame_size S"
      and c3: "h = Finished \<longrightarrow> int (length buf') < frame_size S"
      and c4: "chunks effs = []"
      and c5: "\<forall>x \<in> set effs. opus_effect x"
      by blast
    have "after_send S m cs buf = Some (h, m', buf', ?acc @ effs)"
      using st True rec by (simp add: after_send_def)
    moreover have "concat (encoded (?acc @ effs)) @ buf' = buf"
      using c1 se by (simp add: encoded_append encoded_simps)
    moreover have "\<forall>f \<in> set (encoded (?acc @ effs)). int (length f) = frame_size S"
      using c2 se by (simp add: encoded_append encoded_simps)
    moreover have "chunks (?acc @ effs) = []"
      using c4 se by (simp add: chunks_append chunks_simps)
    moreover have "\<forall>x \<in> set (?acc @ effs). opus_effect x"
      using c5 se by auto
    ultimately show ?thesis using c3 by blast
  qed
qed

lemma opus_loop_cases:
  assumes fs: "0 < frame_size S"
  shows "(pcm = [] \<and> opus_loop S \<sigma> pcm = Some (emits [ReadPcm pcm] (\<sigma>\<lparr>opus_task := loop_top (close \<sigma>) PollSleep\<rparr>)))
       \<or> (pcm \<noteq> [] \<and> (\<exists>r. opus_loop S \<sigma> pcm = Some (opus_settle \<sigma> [ReadPcm pcm] r) \<and> opus_outcome S (buffer \<sigma> @ pcm) r))"
proof (cases "pcm = []")
  case True
  then show ?thesis by (simp add: opus_loop_def)
next
  case False
  let ?buf = "case all_pcm \<sigma> of None \<Rightarrow> pcm | Some d \<Rightarrow> d @ pcm"
  have b: "?buf = buffer \<sigma> @ pcm" by (simp add: buffer_def split: option.splits)
  from frames_loop_result[OF fs, of "model \<sigma>" ?buf "[]"]
  obtain r where r: "frames_loop S (model \<sigma>) ?buf [] = Some r" and o: "opus_outcome S ?buf r"
    by (auto simp: opus_outcome_def list_all_iff)
  have "opus_loop S \<sigma> pcm = Some (opus_settle \<sigma> [ReadPcm pcm] r)"
    using False r by (simp add: opus_loop_def Let_def)
  with o b False show ?thesis by metis
qed

lemma opus_sent_cases:
  assumes fs: "0 < frame_size S"
  shows "(\<exists>e. outcome = Some e \<and> opus_sent S \<sigma> cs outcome = Some (note_failure e (\<sigma>\<lparr>opus_task := Failed e\<rparr>)))
       \<or> (outcome = None \<and> (\<exists>r. opus_sent S \<sigma> cs outcome = Some (opus_settle \<sigma> [] r) \<and> opus_outcome S (buffer \<sigma>) r))"
proof (cases outcome)
  case (Some e)
  then show ?thesis by (simp add: opus_sent_def)
next
  case None
  from after_send_result[OF fs, of "model \<sigma>" cs "buffer \<sigma>"]
  obtain r where r: "after_send S (model \<sigma>) cs (buffer \<sigma>) = Some r" and o: "opus_outcome S (buffer \<sigma>) r"
    by (auto simp: opus_outcome_def list_all_iff)
  have "opus_sent S \<sigma> cs outcome = Some (opus_settle \<sigma> [] r)"
    using None r by (simp add: opus_sent_def buffer_def)
  with o None show ?thesis by metis
qed

lemma opus_settle_fields:
  "close (opus_settle \<sigma> pre r) = close \<sigma>"
  "recv_task (opus_settle \<sigma> pre r) = recv_task \<sigma>"
  "send_task (opus_settle \<sigma> pre r) = send_task \<sigma>"
  "handler (opus_settle \<sigma> pre r) = handler \<sigma>"
  "trace (opus_settle \<sigma> pre r) = trace \<sigma> @ pre @ snd (snd (snd r))"
  "all_pcm (opus_settle \<sigma> pre r) = Some (fst (snd (snd r)))"
  "opus_task (opus_settle \<sigma> pre r) =
     (case fst r of Finished \<Rightarrow> loop_top (close \<sigma>) PollSleep | Suspend cs \<Rightarrow> Suspended (TextSend cs) | Raise e \<Rightarrow> Failed e)"
  "gather_exn (opus_settle \<sigma> pre r) =
     (case fst r of Raise e \<Rightarrow> (case gather_exn \<sigma> of None \<Rightarrow> Some e | Some e0 \<Rightarrow> Some e0) | _ \<Rightarrow> gather_exn \<sigma>)"
  by (cases r; cases "fst r"; simp add: opus_settle_def Let_def note_failure_def)+


lemma opus_step_cases:
  assumes fs: "0 < frame_size S"
    and ev: "ev = OpusWake pcm \<or> ev = OpusSent outcome"
  shows "step S V \<sigma> ev = Some \<sigma>
       \<or> (\<exists>w. opus_task \<sigma> = Suspended w)
          \<and> ((\<exists>e. step S V \<sigma> ev = Some (note_failure e (\<sigma>\<lparr>opus_task := Failed e\<rparr>)))
             \<or> (step S V \<sigma> ev = Some (emits [ReadPcm []] (\<sigma>\<lparr>opus_task := loop_top (close \<sigma>) PollSleep\<rparr>))
                \<and> opus_task \<sigma> = Suspended PollSleep)
             \<or> (\<exists>pre r. step S V \<sigma> ev = Some (opus_settle \<sigma> pre r)
                  \<and> opus_outcome S (buffer \<sigma> @ concat (chunks pre)) r \<and> encoded pre = []
                  \<and> model_calls pre = [] \<and> list_all pipeline_effect pre))"
  using ev
proof
  assume e: "ev = OpusWake pcm"
  show ?thesis
  proof (cases "opus_task \<sigma> = Suspended PollSleep")
    case False then show ?thesis using e by (simp add: step_def)
  next
    case True
    from opus_loop_cases[OF fs, of pcm \<sigma>] show ?thesis
    proof
      assume "pcm = [] \<and> opus_loop S \<sigma> pcm = Some (emits [ReadPcm pcm] (\<sigma>\<lparr>opus_task := loop_top (close \<sigma>) PollSleep\<rparr>))"
      then have "pcm = []" and "opus_loop S \<sigma> [] = Some (emits [ReadPcm []] (\<sigma>\<lparr>opus_task := loop_top (close \<sigma>) PollSleep\<rparr>))"
        by auto
      then show ?thesis using e True by (simp add: step_def)
    next
      assume "pcm \<noteq> [] \<and> (\<exists>r. opus_loop S \<sigma> pcm = Some (opus_settle \<sigma> [ReadPcm pcm] r) \<and> opus_outcome S (buffer \<sigma> @ pcm) r)"
      then obtain r where "opus_loop S \<sigma> pcm = Some (opus_settle \<sigma> [ReadPcm pcm] r)" "opus_outcome S (buffer \<sigma> @ pcm) r" by blast
      then have "step S V \<sigma> ev = Some (opus_settle \<sigma> [ReadPcm pcm] r)
                  \<and> opus_outcome S (buffer \<sigma> @ concat (chunks [ReadPcm pcm])) r \<and> encoded [ReadPcm pcm] = []
                  \<and> model_calls [ReadPcm pcm] = [] \<and> list_all pipeline_effect [ReadPcm pcm]"
        using e True by (simp add: step_def chunks_simps encoded_simps model_calls_def)
      then show ?thesis using True by blast
    qed
  qed
next
  assume e: "ev = OpusSent outcome"
  show ?thesis
  proof (cases "\<exists>cs. opus_task \<sigma> = Suspended (TextSend cs)")
    case False then show ?thesis using e
      by (auto simp: step_def split: task.splits opus_wait.splits)
  next
    case True
    then obtain cs where cs: "opus_task \<sigma> = Suspended (TextSend cs)" by blast
    from opus_sent_cases[OF fs, of outcome \<sigma> cs] show ?thesis
    proof
      assume "\<exists>e. outcome = Some e \<and> opus_sent S \<sigma> cs outcome = Some (note_failure e (\<sigma>\<lparr>opus_task := Failed e\<rparr>))"
      then show ?thesis using e cs by (auto simp: step_def)
    next
      assume "outcome = None \<and> (\<exists>r. opus_sent S \<sigma> cs outcome = Some (opus_settle \<sigma> [] r) \<and> opus_outcome S (buffer \<sigma>) r)"
      then obtain r where "opus_sent S \<sigma> cs outcome = Some (opus_settle \<sigma> [] r)" "opus_outcome S (buffer \<sigma>) r" by blast
      then have "step S V \<sigma> ev = Some (opus_settle \<sigma> [] r)
                  \<and> opus_outcome S (buffer \<sigma> @ concat (chunks [])) r \<and> encoded [] = []
                  \<and> model_calls [] = [] \<and> list_all pipeline_effect []"
        using e cs by (simp add: step_def chunks_simps encoded_simps model_calls_def)
      then show ?thesis using cs by blast
    qed
  qed
qed

section \<open>The Ingest loop: dispatch\<close>

text \<open>
  C6 (as amended). While the Ingest loop waits for a message: a binary message with kind
  byte 1 has exactly the bytes after the kind byte appended to the decoder; a binary
  message with another kind byte, and a zero-length one, log a warning; a message that
  is not binary logs at level error, not warning. In each case nothing else of the
  session changes: nothing is raised, \<^verbatim>\<open>close\<close> keeps its value and the loop waits for
  the next message. In \<^verbatim>\<open>handle_chat\<close> "not binary" is a type other than ERROR, CLOSED
  and BINARY.
\<close>

theorem ingest_dispatch:
  assumes "recv_task \<sigma> = Suspended NextMessage"
  shows "step S server_opus \<sigma> (Message (Bytes (1 # payload)))
           = Some (\<sigma>\<lparr>trace := trace \<sigma> @ [AppendBytes payload]\<rparr>)
       \<and> (kind \<noteq> 1 \<longrightarrow>
            step S server_opus \<sigma> (Message (Bytes (kind # payload)))
              = Some (\<sigma>\<lparr>trace := trace \<sigma> @ [Log Warning (UnknownMessageKind kind)]\<rparr>))
       \<and> step S server_opus \<sigma> (Message (Bytes []))
           = Some (\<sigma>\<lparr>trace := trace \<sigma> @ [Log Warning EmptyMessage]\<rparr>)
       \<and> step S server_opus \<sigma> (Message (Str s))
           = Some (\<sigma>\<lparr>trace := trace \<sigma> @ [Log Error UnsupportedMessageType]\<rparr>)
       \<and> step S moshi_server \<sigma>
             (Message \<lparr>msg_type = BINARY, msg_data = DataBytes (1 # payload)\<rparr>)
           = Some (\<sigma>\<lparr>trace := trace \<sigma> @ [AppendBytes payload]\<rparr>)
       \<and> (kind \<noteq> 1 \<longrightarrow>
            step S moshi_server \<sigma>
              (Message \<lparr>msg_type = BINARY, msg_data = DataBytes (kind # payload)\<rparr>)
              = Some (\<sigma>\<lparr>trace := trace \<sigma> @ [Log Warning (UnknownMessageKind kind)]\<rparr>))
       \<and> step S moshi_server \<sigma> (Message \<lparr>msg_type = BINARY, msg_data = DataBytes []\<rparr>)
           = Some (\<sigma>\<lparr>trace := trace \<sigma> @ [Log Warning EmptyMessage]\<rparr>)
       \<and> (ty \<noteq> ERROR \<and> ty \<noteq> CLOSED \<and> ty \<noteq> BINARY \<longrightarrow>
            step S moshi_server \<sigma> (Message \<lparr>msg_type = ty, msg_data = d\<rparr>)
              = Some (\<sigma>\<lparr>trace := trace \<sigma> @ [Log Error UnexpectedMessageType]\<rparr>))"
  using assms
  by (simp add: step_def recv_message_def server_opus_def moshi_server_def recv_loop_chat_def
      emits_def)

theorem ingest_dispatch_witness:
  "recv_task demo_session = Suspended NextMessage
   \<and> step demo_server server_opus demo_session (Message (Bytes [1, 0x4F, 0x67]))
       = Some (demo_session\<lparr>trace := trace demo_session @ [AppendBytes [0x4F, 0x67]]\<rparr>)
   \<and> step demo_server server_opus demo_session (Message (Bytes [7, 0x4F]))
       = Some (demo_session\<lparr>trace := trace demo_session @ [Log Warning (UnknownMessageKind 7)]\<rparr>)
   \<and> step demo_server moshi_server demo_session
         (Message \<lparr>msg_type = TEXT, msg_data = DataStr [0x68]\<rparr>)
       = Some (demo_session\<lparr>trace := trace demo_session @ [Log Error UnexpectedMessageType]\<rparr>)"
proof -
  have w: "recv_task demo_session = Suspended NextMessage"
    by (simp add: demo_session_def handshake_sent_def)
  show ?thesis
    using w ingest_dispatch[OF w, of demo_server "[0x4F, 0x67]" 7 "[]" TEXT "DataStr [0x68]"]
      ingest_dispatch[OF w, of demo_server "[0x4F]" 7]
    by simp
qed

text \<open>The claim as stated fails on a message that is not binary: the line logged is
  of level error.\<close>

theorem ingest_dispatch_counterexample:
  "map_option (\<lambda>\<sigma>. (last (trace \<sigma>), recv_task \<sigma>))
     (handle_conn demo_server 0 [LockGranted, HandshakeSent None, Message (Str [0x68, 0x69])])
   = Some (Log Error UnsupportedMessageType, Suspended NextMessage)"
  by (simp add: eval_defs)




section \<open>The Process loop: text tokens\<close>

text \<open>The loop over the columns, one column at a time.\<close>

lemma steps_loop_Cons:
  "steps_loop S m (c # cs) =
    (case steps_loop S m [c] of
       (Finished, m1, effs) \<Rightarrow> emit effs (steps_loop S m1 cs)
     | (Suspend rest, m1, effs) \<Rightarrow> (Suspend (rest @ cs), m1, effs)
     | (Raise e, m1, effs) \<Rightarrow> (Raise e, m1, effs))"
  by (cases "steps_loop S m cs")
     (auto simp: emit_def Let_def split: sum.splits option.splits prod.splits halt.splits)

text \<open>
  C5. A model step whose text token is 0 or 3 sends nothing, so no message of kind 2;
  and a step that does send a message got tokens whose text token is neither 0 nor 3,
  and the message is of kind 2.
\<close>

theorem reserved_token_sends_no_text:
  assumes "steps_loop S m [c] = (h, m', effs)"
  shows "(\<forall>m1 toks. lm_gen_step S m c = Inr (m1, Some toks) \<and> (hd toks = 0 \<or> hd toks = 3)
            \<longrightarrow> (\<forall>b. WsSend b \<notin> set effs))
       \<and> (\<forall>b. WsSend b \<in> set effs
            \<longrightarrow> (\<exists>m1 toks. lm_gen_step S m c = Inr (m1, Some toks)
                   \<and> hd toks \<noteq> 0 \<and> hd toks \<noteq> 3 \<and> b \<noteq> [] \<and> hd b = 2))"
proof (cases "lm_gen_step S m c")
  case (Inl e)
  with assms show ?thesis by auto
next
  case (Inr r)
  obtain m1 ot where r: "r = (m1, ot)" by (cases r)
  show ?thesis
  proof (cases ot)
    case None
    with assms Inr r show ?thesis by (auto simp: emit_def)
  next
    case (Some toks)
    show ?thesis
    proof (cases "hd toks = 0 \<or> hd toks = 3")
      case True
      with assms Inr r Some show ?thesis
        by (auto simp: emit_def Let_def split: sum.splits if_splits)
    next
      case False
      with assms Inr r Some show ?thesis
        using text_message_kind[of S "hd toks"]
        by (auto simp: emit_def Let_def split: sum.splits if_splits)
    qed
  qed
qed

theorem reserved_token_sends_no_text_witness:
  "steps_loop demo_server 1 [[3, 5]]
     = (Finished, 2, [Step [3, 5], Decode [3, 5], AppendPcm [3, 5]])
   \<and> lm_gen_step demo_server 1 [3, 5] = Inr (2, Some [3, 3, 5])
   \<and> hd [3, 3, 5 :: int] = 3
   \<and> (\<forall>b. WsSend b \<notin> set [Step [3, 5], Decode [3, 5], AppendPcm [3, 5]])"
proof -
  have s: "steps_loop demo_server 1 [[3, 5]]
     = (Finished, 2, [Step [3, 5], Decode [3, 5], AppendPcm [3, 5]])"
    by (simp add: demo_server_def emit_def)
  show ?thesis
    using s reserved_token_sends_no_text[OF s] by (simp add: demo_server_def)
qed

text \<open>
  C4 (as amended). For a model step whose text token is not reserved, the Process loop
  maps the token through the tokenizer, replaces the word-boundary marker U+2581 by a
  space, and itself writes the kind-2 message to the transport, where it suspends until
  the send returns; there is no queue. The Egress loop writes kind-1 messages only.
\<close>

theorem process_loop_sends_text:
  assumes "lm_gen_step S m c = Inr (m1, Some toks)"
    and "length toks = dep_q S + 1"
    and "ec_decode S m1 (drop 1 toks) = Inr (m2, main_pcm)"
    and "hd toks \<noteq> 0" and "hd toks \<noteq> 3"
    and "id_to_piece S (hd toks) = Inr piece"
    and "utf8 (replace 0x2581 0x20 piece) = Inr bs"
  shows "steps_loop S m (c # cs)
           = (Suspend cs, m2,
              [Step c, Decode (drop 1 toks), AppendPcm main_pcm,
               Log Info (TextToken (replace 0x2581 0x20 piece)), WsSend (2 # bs)])
       \<and> (\<exists>es. trace (send_loop V \<sigma> msg) = trace \<sigma> @ es
              \<and> (\<forall>b. WsSend b \<in> set es \<longrightarrow> b = 1 # msg))
       \<and> trace (send_sent \<sigma> outcome) = trace \<sigma>"
  using assms
  by (auto simp: text_message_def Let_def send_loop_def send_sent_def emits_def note_failure_def
      split: option.splits)

theorem process_loop_sends_text_witness:
  "lm_gen_step demo_server 1 [4, 4] = Inr (2, Some [4, 4, 4])
   \<and> length [4, 4, 4 :: int] = dep_q demo_server + 1
   \<and> ec_decode demo_server 2 (drop 1 [4, 4, 4]) = Inr (2, [4, 4])
   \<and> hd [4, 4, 4 :: int] \<noteq> 0 \<and> hd [4, 4, 4 :: int] \<noteq> 3
   \<and> id_to_piece demo_server (hd [4, 4, 4]) = Inr [0x2581, 0x68, 0x69]
   \<and> utf8 (replace 0x2581 0x20 [0x2581, 0x68, 0x69]) = Inr [0x20, 0x68, 0x69]
   \<and> steps_loop demo_server 1 [[4, 4], [6, 6]]
       = (Suspend [[6, 6]], 2,
          [Step [4, 4], Decode [4, 4], AppendPcm [4, 4], Log Info (TextToken [0x20, 0x68, 0x69]),
           WsSend [2, 0x20, 0x68, 0x69]])"
proof -
  have a: "lm_gen_step demo_server 1 [4, 4] = Inr (2, Some [4, 4, 4])"
    and b: "length [4, 4, 4 :: int] = dep_q demo_server + 1"
    and c: "ec_decode demo_server 2 (drop 1 [4, 4, 4]) = Inr (2, [4, 4])"
    and d: "hd [4, 4, 4 :: int] \<noteq> 0" "hd [4, 4, 4 :: int] \<noteq> 3"
    and e: "id_to_piece demo_server (hd [4, 4, 4]) = Inr [0x2581, 0x68, 0x69]"
    and f: "utf8 (replace 0x2581 0x20 [0x2581, 0x68, 0x69]) = Inr [0x20, 0x68, 0x69]"
    by (simp_all add: demo_server_def replace_def utf8_char_def)
  from process_loop_sends_text[OF a b c d e f, of "[[6, 6]]", THEN conjunct1]
  have g: "steps_loop demo_server 1 [[4, 4], [6, 6]]
       = (Suspend [[6, 6]], 2,
          [Step [4, 4], Decode [4, 4], AppendPcm [4, 4], Log Info (TextToken [0x20, 0x68, 0x69]),
           WsSend [2, 0x20, 0x68, 0x69]])"
    by (simp add: replace_def del: steps_loop.simps)
  from a b c d e f g show ?thesis by blast
qed

text \<open>The claim as stated fails: the kind-2 message is on the transport while the
  Egress loop has not run at all, and the Process loop is the one suspended in the send.\<close>

theorem process_loop_sends_text_counterexample:
  "map_option (\<lambda>\<sigma>. (opus_task \<sigma>, send_task \<sigma>, last (trace \<sigma>)))
     (handle_conn demo_server 0
        [LockGranted, HandshakeSent None, OpusWake [1, 1], OpusWake [4, 4]])
   = Some (Suspended (TextSend []), Suspended EgressSleep, WsSend [2, 0x20, 0x68, 0x69])"
  by (simp add: eval_defs)

section \<open>The Process loop: frames\<close>

lemma opus_settle_conserved:
  assumes "conserved \<sigma>" "opus_outcome S (buffer \<sigma> @ concat (chunks pre)) r" "encoded pre = []"
  shows "conserved (opus_settle \<sigma> pre r)"
proof -
  obtain h m' buf' effs where r: "r = (h, m', buf', effs)" by (cases r)
  have t: "trace (opus_settle \<sigma> pre r) = trace \<sigma> @ pre @ effs"
    and b: "buffer (opus_settle \<sigma> pre r) = buf'"
    using r by (cases h; simp add: opus_settle_def Let_def buffer_def note_failure_def)+
  show ?thesis
    using assms r unfolding conserved_def t b
    by (simp add: opus_outcome_def encoded_append chunks_append)
qed

lemma step_conserved:
  assumes fs: "0 < frame_size S" and inv: "conserved \<sigma>"
  shows "\<exists>\<sigma>'. step S V \<sigma> ev = Some \<sigma>' \<and> conserved \<sigma>'"
proof -
  consider pcm outcome where "ev = OpusWake pcm \<or> ev = OpusSent outcome"
    | "\<forall>pcm outcome. ev \<noteq> OpusWake pcm \<and> ev \<noteq> OpusSent outcome"
    by blast
  then show ?thesis
  proof cases
    case 1
    from opus_step_cases[OF fs 1, of V \<sigma>] show ?thesis
      using inv opus_settle_conserved[OF inv, of S]
      by (auto simp: conserved_def note_failure_def emits_def buffer_def encoded_append
            chunks_append encoded_simps chunks_simps)
  next
    case 2
    then show ?thesis using inv
      by (cases ev)
         (auto simp: conserved_def buffer_def other_step_defs encoded_def chunks_def
          split: sum.splits option.splits recv_action.splits)
  qed
qed

lemma accepted_conserved: "conserved (accepted V m)"
  by (simp add: conserved_def accepted_def accept_trace_def buffer_def encoded_def chunks_def)

lemma run_conserved:
  assumes "0 < frame_size S"
  shows "\<exists>\<sigma>. run S V (accepted V m) evs = Some \<sigma> \<and> conserved \<sigma>"
  by (rule run_invariant[where I = conserved])
     (auto intro: step_conserved[OF assms] accepted_conserved)

text \<open>
  C1. Whatever the event loop does (every order of wake-ups, every sequence of chunks
  returned by \<^verbatim>\<open>read_pcm\<close>), the handler's run is defined and, at each point of it, the
  frames handed to \<^verbatim>\<open>encode\<close> so far, in the order of the calls, followed by the
  accumulation buffer are the chunks read so far, in the order they were read: no
  sample is lost, duplicated or reordered. (\<^verbatim>\<open>frame_size\<close> is positive.)
\<close>

theorem frame_conservation:
  assumes "0 < frame_size S"
  shows "(\<exists>\<sigma>. handle_conn S m evs = Some \<sigma>
            \<and> concat (encoded (trace \<sigma>)) @ buffer \<sigma> = concat (chunks (trace \<sigma>)))
       \<and> (\<exists>\<sigma>. handle_chat S m evs' = Some \<sigma>
            \<and> concat (encoded (trace \<sigma>)) @ buffer \<sigma> = concat (chunks (trace \<sigma>)))"
  using run_conserved[OF assms, of server_opus m evs]
    run_conserved[OF assms, of moshi_server m evs']
  by (simp add: handle_conn_def handle_chat_def conserved_def)

theorem frame_conservation_witness:
  "0 < frame_size demo_server
   \<and> map_option (\<lambda>\<sigma>. (encoded (trace \<sigma>), buffer \<sigma>, chunks (trace \<sigma>)))
       (handle_conn demo_server 0
          [LockGranted, HandshakeSent None, OpusWake [0, 3, 3, 5], OpusWake [],
           OpusWake [4, 4, 9], OpusSent None])
     = Some ([[0, 3], [3, 5], [4, 4]], [9], [[0, 3, 3, 5], [], [4, 4, 9]])
   \<and> (\<exists>\<sigma>. handle_conn demo_server 0
          [LockGranted, HandshakeSent None, OpusWake [0, 3, 3, 5], OpusWake [],
           OpusWake [4, 4, 9], OpusSent None] = Some \<sigma>
         \<and> concat (encoded (trace \<sigma>)) @ buffer \<sigma> = concat (chunks (trace \<sigma>)))"
proof -
  have p: "0 < frame_size demo_server" by (simp add: demo_server_def)
  have e: "map_option (\<lambda>\<sigma>. (encoded (trace \<sigma>), buffer \<sigma>, chunks (trace \<sigma>)))
       (handle_conn demo_server 0
          [LockGranted, HandshakeSent None, OpusWake [0, 3, 3, 5], OpusWake [],
           OpusWake [4, 4, 9], OpusSent None])
     = Some ([[0, 3], [3, 5], [4, 4]], [9], [[0, 3, 3, 5], [], [4, 4, 9]])"
    by (simp add: eval_defs)
  from frame_conservation[OF p, THEN conjunct1] p e show ?thesis by blast
qed

lemma opus_settle_framed:
  assumes "framed S \<sigma>" "opus_outcome S (buffer \<sigma> @ concat (chunks pre)) r" "encoded pre = []"
  shows "framed S (opus_settle \<sigma> pre r)"
proof -
  obtain h m' buf' effs where r: "r = (h, m', buf', effs)" by (cases r)
  show ?thesis
    using assms r
    by (cases h)
       (auto simp: framed_def opus_outcome_def opus_settle_fields buffer_def encoded_append
          between_iterations_def loop_top_def)
qed

lemma opus_settle_dormant:
  assumes "dormant \<sigma>" "opus_task \<sigma> = Suspended w"
  shows "dormant (opus_settle \<sigma> pre r)"
  using assms by (auto simp: dormant_def opus_settle_fields)

lemma step_framed:
  assumes fs: "0 < frame_size S" and inv: "framed_inv S \<sigma>"
  shows "\<exists>\<sigma>'. step S V \<sigma> ev = Some \<sigma>' \<and> framed_inv S \<sigma>'"
proof -
  consider pcm outcome where "ev = OpusWake pcm \<or> ev = OpusSent outcome"
    | "\<forall>pcm outcome. ev \<noteq> OpusWake pcm \<and> ev \<noteq> OpusSent outcome"
    by blast
  then show ?thesis
  proof cases
    case 1
    from opus_step_cases[OF fs 1, of V \<sigma>] show ?thesis
      using inv opus_settle_framed[of S \<sigma>] opus_settle_dormant[of \<sigma>]
      by (auto simp: framed_inv_def)
         (auto simp: framed_def dormant_def note_failure_def emits_def buffer_def encoded_append
            encoded_simps between_iterations_def)
  next
    case 2
    then show ?thesis using inv
      by (cases ev)
         (auto simp: framed_inv_def framed_def dormant_def buffer_def other_step_defs encoded_def
            between_iterations_def loop_top_def
          split: sum.splits option.splits recv_action.splits)
  qed
qed

lemma accepted_framed: "0 < frame_size S \<Longrightarrow> framed_inv S (accepted V m)"
  by (simp add: framed_inv_def framed_def dormant_def accepted_def accept_trace_def buffer_def encoded_def between_iterations_def)

lemma run_framed:
  assumes "0 < frame_size S"
  shows "\<exists>\<sigma>. run S V (accepted V m) evs = Some \<sigma> \<and> framed_inv S \<sigma>"
  by (rule run_invariant[where I = "framed_inv S"]) (auto intro: step_framed[OF assms] accepted_framed[OF assms])

text \<open>
  C10 (as amended). At each point of a run every frame handed to \<^verbatim>\<open>encode\<close> so far has
  exactly \<^verbatim>\<open>frame_size\<close> samples, and whenever the Process loop is between two
  iterations of its outer loop (in the poll sleep, or returned) the accumulation buffer
  holds fewer than \<^verbatim>\<open>frame_size\<close> samples. Nothing is said of the other suspension
  point, the send of a text message inside the frame loop. (\<^verbatim>\<open>frame_size\<close> is positive.)
\<close>

theorem buffer_short_between_iterations:
  assumes "0 < frame_size S"
  shows "(\<exists>\<sigma>. handle_conn S m evs = Some \<sigma>
            \<and> list_all (\<lambda>f. int (length f) = frame_size S) (encoded (trace \<sigma>))
            \<and> (between_iterations \<sigma> \<longrightarrow> int (length (buffer \<sigma>)) < frame_size S))
       \<and> (\<exists>\<sigma>. handle_chat S m evs' = Some \<sigma>
            \<and> list_all (\<lambda>f. int (length f) = frame_size S) (encoded (trace \<sigma>))
            \<and> (between_iterations \<sigma> \<longrightarrow> int (length (buffer \<sigma>)) < frame_size S))"
  using run_framed[OF assms, of server_opus m evs] run_framed[OF assms, of moshi_server m evs']
  by (auto simp: handle_conn_def handle_chat_def framed_inv_def framed_def)

theorem buffer_short_between_iterations_witness:
  "0 < frame_size demo_server
   \<and> map_option (\<lambda>\<sigma>. (opus_task \<sigma>, encoded (trace \<sigma>), buffer \<sigma>))
       (handle_conn demo_server 0
          [LockGranted, HandshakeSent None, OpusWake [1, 1, 3], OpusWake [7, 0, 7, 8]])
     = Some (Suspended PollSleep, [[1, 1], [3, 7], [0, 7]], [8])
   \<and> (\<exists>\<sigma>. handle_conn demo_server 0
          [LockGranted, HandshakeSent None, OpusWake [1, 1, 3], OpusWake [7, 0, 7, 8]] = Some \<sigma>
         \<and> list_all (\<lambda>f. int (length f) = frame_size demo_server) (encoded (trace \<sigma>))
         \<and> between_iterations \<sigma> \<and> int (length (buffer \<sigma>)) < frame_size demo_server)"
proof -
  let ?evs = "[LockGranted, HandshakeSent None, OpusWake [1, 1, 3], OpusWake [7, 0, 7, 8]]"
  have p: "0 < frame_size demo_server" by (simp add: demo_server_def)
  have e: "map_option (\<lambda>\<sigma>. (opus_task \<sigma>, encoded (trace \<sigma>), buffer \<sigma>))
       (handle_conn demo_server 0 ?evs)
     = Some (Suspended PollSleep, [[1, 1], [3, 7], [0, 7]], [8])"
    by (simp add: eval_defs)
  from buffer_short_between_iterations[OF p, THEN conjunct1, of 0 ?evs]
  obtain \<sigma> where s: "handle_conn demo_server 0 ?evs = Some \<sigma>"
    and l: "list_all (\<lambda>f. int (length f) = frame_size demo_server) (encoded (trace \<sigma>))"
    and b: "between_iterations \<sigma> \<longrightarrow> int (length (buffer \<sigma>)) < frame_size demo_server"
    by blast
  from e s have "between_iterations \<sigma>" by (simp add: between_iterations_def)
  with s l b p e show ?thesis by blast
qed

text \<open>The claim as stated fails at the suspension point inside the frame loop: the
  Process loop is suspended in the send of a text message while the buffer still holds
  three samples, with frames of two.\<close>

theorem buffer_at_text_send_counterexample:
  "map_option (\<lambda>\<sigma>. (opus_task \<sigma>, buffer \<sigma>, int (length (buffer \<sigma>)) < frame_size demo_server))
     (handle_conn demo_server 0
        [LockGranted, HandshakeSent None, OpusWake [1, 1], OpusWake [4, 4, 9, 9, 1]])
   = Some (Suspended (TextSend []), [9, 9, 1], False)"
  by (simp add: eval_defs)

section \<open>The handler: startup order\<close>








section \<open>The handler: a failure of the Process loop\<close>






end
